theory Spec2Isabelle
  imports Main
begin

section \<open>JavaScript string primitives\<close>

text \<open>
  The CSV validator of \<^verbatim>\<open>src/utils/csvParser.ts\<close> works on JavaScript strings. A string
  is modelled as a list of code units, and a code unit as a \<^typ>\<open>char\<close>: the model covers
  the code units U+0000 to U+00FF. In that range \<^verbatim>\<open>String.prototype.trim\<close> and the
  regular-expression class \<^verbatim>\<open>\s\<close> remove or match TAB, LF, VT, FF, CR, SPACE and
  NBSP, the regular-expression dot refuses LF and CR, and \<^verbatim>\<open>toLowerCase\<close> maps
  code unit by code unit.
\<close>

type_synonym row = "string list"

abbreviation DQ :: char where "DQ \<equiv> CHR 0x22"
abbreviation NL :: char where "NL \<equiv> CHR 0x0A"
abbreviation COMMA :: char where "COMMA \<equiv> CHR 0x2C"
abbreviation DOT :: char where "DOT \<equiv> CHR 0x2E"
abbreviation AT :: char where "AT \<equiv> CHR 0x40"

definition isWhitespace :: "char \<Rightarrow> bool" where
  "isWhitespace c \<longleftrightarrow>
     c = CHR 0x09 \<or> c = CHR 0x0A \<or> c = CHR 0x0B \<or> c = CHR 0x0C \<or> c = CHR 0x0D \<or>
     c = CHR 0x20 \<or> c = CHR 0xA0"

definition isLineTerminator :: "char \<Rightarrow> bool" where
  "isLineTerminator c \<longleftrightarrow> c = CHR 0x0A \<or> c = CHR 0x0D"

definition isDigit :: "char \<Rightarrow> bool" where
  "isDigit c \<longleftrightarrow> (48::nat) \<le> of_char c \<and> (of_char c :: nat) \<le> 57"

text \<open>\<^verbatim>\<open>s.trim()\<close>\<close>

definition trim :: "string \<Rightarrow> string" where
  "trim s = rev (dropWhile isWhitespace (rev (dropWhile isWhitespace s)))"

text \<open>\<^verbatim>\<open>s.startsWith(c)\<close> and \<^verbatim>\<open>s.endsWith(c)\<close> for a one-character \<^verbatim>\<open>c\<close>\<close>

definition startsWith :: "char \<Rightarrow> string \<Rightarrow> bool" where
  "startsWith c s = (case s of [] \<Rightarrow> False | x # _ \<Rightarrow> x = c)"

definition endsWith :: "char \<Rightarrow> string \<Rightarrow> bool" where
  "endsWith c s = (case rev s of [] \<Rightarrow> False | x # _ \<Rightarrow> x = c)"

text \<open>\<^verbatim>\<open>s.includes(sub)\<close>\<close>

fun includesStr :: "string \<Rightarrow> string \<Rightarrow> bool" where
  "includesStr sub [] = (sub = [])"
| "includesStr sub (c # cs) = (take (length sub) (c # cs) = sub \<or> includesStr sub cs)"

text \<open>\<^verbatim>\<open>s.split(sep)\<close> for a one-character separator: never the empty list.\<close>

fun split :: "char \<Rightarrow> string \<Rightarrow> string list" where
  "split sep [] = [[]]"
| "split sep (c # cs) =
     (if c = sep then [] # split sep cs
      else (case split sep cs of [] \<Rightarrow> [[c]] | p # ps \<Rightarrow> (c # p) # ps))"

text \<open>\<^verbatim>\<open>xs.join(sep)\<close> for a one-character separator\<close>

fun join :: "char \<Rightarrow> string list \<Rightarrow> string" where
  "join sep [] = []"
| "join sep [x] = x"
| "join sep (x # y # ys) = x @ sep # join sep (y # ys)"

text \<open>\<^verbatim>\<open>s.lastIndexOf(c)\<close>, with \<^term>\<open>None\<close> for the result -1\<close>

fun indexOf :: "char \<Rightarrow> string \<Rightarrow> nat option" where
  "indexOf c [] = None"
| "indexOf c (x # xs) =
     (if x = c then Some 0 else (case indexOf c xs of None \<Rightarrow> None | Some k \<Rightarrow> Some (Suc k)))"

definition lastIndexOf :: "char \<Rightarrow> string \<Rightarrow> nat option" where
  "lastIndexOf c s =
     (case indexOf c (rev s) of None \<Rightarrow> None | Some k \<Rightarrow> Some (length s - 1 - k))"

text \<open>\<^verbatim>\<open>s.toLowerCase()\<close> on the code units U+0000 to U+00FF\<close>

definition toLowerChar :: "char \<Rightarrow> char" where
  "toLowerChar c =
     (let n = (of_char c :: nat)
      in if (65 \<le> n \<and> n \<le> 90) \<or> (192 \<le> n \<and> n \<le> 222 \<and> n \<noteq> 215)
         then char_of (n + 32) else c)"

definition toLowerCase :: "string \<Rightarrow> string" where
  "toLowerCase s = map toLowerChar s"

text \<open>The decimal rendering of a number inside a template literal\<close>

fun showNat :: "nat \<Rightarrow> string" where
  "showNat n =
     (if n < 10 then [char_of (48 + n)]
      else showNat (n div 10) @ [char_of (48 + n mod 10)])"

section \<open>Tokenizer: parseCSV\<close>

text \<open>
  The inner loop of \<^verbatim>\<open>parseCSV\<close> over the characters of one physical line. The state is
  the loop's three variables \<^verbatim>\<open>currentRow\<close>, \<^verbatim>\<open>currentField\<close> and \<^verbatim>\<open>inQuotes\<close>;
  the escaped-quote branch consumes two characters (\<^verbatim>\<open>j++\<close>).
\<close>

fun scanLine :: "string \<Rightarrow> row \<Rightarrow> string \<Rightarrow> bool \<Rightarrow> row \<times> string \<times> bool" where
  "scanLine [] currentRow currentField inQuotes = (currentRow, currentField, inQuotes)"
| "scanLine (c # cs) currentRow currentField inQuotes =
     (if c = DQ then
        (case cs of
           [] \<Rightarrow> scanLine cs currentRow currentField (\<not> inQuotes)
         | nextChar # cs' \<Rightarrow>
             if inQuotes \<and> nextChar = DQ
             then scanLine cs' currentRow (currentField @ [DQ]) inQuotes
             else scanLine cs currentRow currentField (\<not> inQuotes))
      else if c = COMMA \<and> \<not> inQuotes
        then scanLine cs (currentRow @ [trim currentField]) [] inQuotes
      else scanLine cs currentRow (currentField @ [c]) inQuotes)"

text \<open>\<^verbatim>\<open>currentRow.length > 0 && currentRow.some(field => field.length > 0)\<close>\<close>

definition nonEmptyRow :: "row \<Rightarrow> bool" where
  "nonEmptyRow r \<longleftrightarrow> r \<noteq> [] \<and> list_ex (\<lambda>field. field \<noteq> []) r"

text \<open>The outer loop over the physical lines, with the accumulated \<^verbatim>\<open>rows\<close>.\<close>

fun parseLines ::
  "string list \<Rightarrow> row list \<Rightarrow> row \<Rightarrow> string \<Rightarrow> bool \<Rightarrow> row list \<times> row \<times> string \<times> bool" where
  "parseLines [] rows currentRow currentField inQuotes =
     (rows, currentRow, currentField, inQuotes)"
| "parseLines (line # lines) rows currentRow currentField inQuotes =
     (case scanLine line currentRow currentField inQuotes of
        (cr, cf, q) \<Rightarrow>
          if \<not> q then
            (let cr' = (if cf \<noteq> [] \<or> cr \<noteq> [] then cr @ [trim cf] else cr);
                 rows' = (if nonEmptyRow cr' then rows @ [cr'] else rows)
             in parseLines lines rows' [] [] q)
          else parseLines lines rows cr (cf @ [NL]) q)"

definition parseCSV :: "string \<Rightarrow> row list" where
  "parseCSV csvText =
     (case parseLines (split NL csvText) [] [] [] False of
        (rows, currentRow, currentField, inQuotes) \<Rightarrow>
          if currentField \<noteq> [] \<or> currentRow \<noteq> [] then
            (let cr' = currentRow @ [trim currentField]
             in if nonEmptyRow cr' then rows @ [cr'] else rows)
          else rows)"

section \<open>FieldCleaner: cleanField\<close>

definition cleanField :: "string \<Rightarrow> string" where
  "cleanField field =
     (let trimmedField = trim field;
          trimmedField = (if startsWith COMMA trimmedField then trim (drop 1 trimmedField)
                          else trimmedField)
      in if startsWith DQ trimmedField \<and> endsWith DQ trimmedField \<and> length trimmedField > 1
         then (let unquotedContent = butlast (drop 1 trimmedField)
               in if endsWith COMMA unquotedContent then butlast unquotedContent
                  else unquotedContent)
         else if endsWith COMMA trimmedField then trim (butlast trimmedField)
         else trimmedField)"

section \<open>EmailNormalizer: autoCorrectEmailDomain\<close>

definition validTLDs :: "string list" where
  "validTLDs = [''.co'', ''.io'', ''.org'', ''.net'', ''.edu'', ''.gov'', ''.mil'', ''.int'',
                ''.uk'', ''.us'', ''.ca'', ''.au'', ''.in'', ''.de'', ''.fr'', ''.jp'', ''.cn'']"

definition typoCorrections :: "(string \<times> string) list" where
  "typoCorrections =
     [(''.con'', ''.com''), (''.cmo'', ''.com''), (''.comn'', ''.com''), (''.comm'', ''.com''),
      (''.coom'', ''.com''), (''.com,'', ''.com''), (''.con,'', ''.com''), (''.cmo,'', ''.com''),
      (''.or'', ''.org''), (''.ogr'', ''.org''), (''.net,'', ''.net''), (''.ne'', ''.net'')]"

definition autoCorrectEmailDomain :: "string \<Rightarrow> string" where
  "autoCorrectEmailDomain email =
     (let trimmedEmail = trim email
      in if AT \<notin> set trimmedEmail then trimmedEmail
         else (case split AT trimmedEmail of
                 localPart # domain # _ \<Rightarrow>
                   if domain = [] then trimmedEmail
                   else (case lastIndexOf DOT domain of
                           None \<Rightarrow> trimmedEmail
                         | Some lastDotIndex \<Rightarrow>
                             (let tld = drop lastDotIndex domain;
                                  baseDomain = take lastDotIndex domain
                              in if toLowerCase tld \<in> set validTLDs then trimmedEmail
                                 else (case map_of typoCorrections (toLowerCase tld) of
                                         Some correctedTLD \<Rightarrow>
                                           localPart @ [AT] @ baseDomain @ correctedTLD
                                       | None \<Rightarrow>
                                           if endsWith COMMA tld then
                                             (case map_of typoCorrections
                                                     (toLowerCase (butlast tld)) of
                                                Some correctedTLD \<Rightarrow>
                                                  localPart @ [AT] @ baseDomain @ correctedTLD
                                              | None \<Rightarrow> trimmedEmail)
                                           else trimmedEmail)))
               | _ \<Rightarrow> trimmedEmail))"

section \<open>Validators: isValidEmail, isValidPhoneNumber\<close>

text \<open>The character class \<^verbatim>\<open>[^\s@]\<close> and one or more of them\<close>

definition emailChars :: "string \<Rightarrow> bool" where
  "emailChars s \<longleftrightarrow> s \<noteq> [] \<and> list_all (\<lambda>c. \<not> isWhitespace c \<and> c \<noteq> AT) s"

text \<open>
  \<^verbatim>\<open>/^[^\s@]+@[^\s@]+\.[^\s@]+$/.test(s)\<close>: some position \<open>i\<close> holds the \<^verbatim>\<open>@\<close> and
  some later position \<open>j\<close> the dot, with the three parts around them in the class.
\<close>

definition emailRegex :: "string \<Rightarrow> bool" where
  "emailRegex s \<longleftrightarrow>
     list_ex (\<lambda>i. list_ex (\<lambda>j. i < j \<and> s ! i = AT \<and> s ! j = DOT \<and>
                               emailChars (take i s) \<and>
                               emailChars (take (j - Suc i) (drop (Suc i) s)) \<and>
                               emailChars (drop (Suc j) s))
                          [0 ..< length s])
             [0 ..< length s]"

definition isValidEmail :: "string \<Rightarrow> bool" where
  "isValidEmail email =
     (if email = [] \<or> trim email = [] then False
      else (let trimmedEmail = trim email;
                atCount = length (filter (\<lambda>c. c = AT) trimmedEmail)
            in if atCount \<noteq> 1 then False
               else (case split AT trimmedEmail of
                       localPart # domain # _ \<Rightarrow>
                         if localPart = [] \<or> domain = [] then False
                         else if DOT \<notin> set domain then False
                         else if startsWith DOT domain \<or> endsWith DOT domain then False
                         else if \<not> emailRegex trimmedEmail then False
                         else True
                     | _ \<Rightarrow> False)))"

text \<open>The characters removed by \<^verbatim>\<open>replace(/[\s\-\(\)\+\.]/g, '')\<close>\<close>

definition isPhoneFormatting :: "char \<Rightarrow> bool" where
  "isPhoneFormatting c \<longleftrightarrow>
     isWhitespace c \<or> c = CHR ''-'' \<or> c = CHR ''('' \<or> c = CHR '')'' \<or> c = CHR ''+'' \<or> c = DOT"

definition isValidPhoneNumber :: "string \<Rightarrow> bool" where
  "isValidPhoneNumber phone =
     (if phone = [] \<or> trim phone = [] then False
      else (let trimmedPhone = trim phone;
                digitsOnly = filter (\<lambda>c. \<not> isPhoneFormatting c) trimmedPhone
            in if \<not> (digitsOnly \<noteq> [] \<and> list_all isDigit digitsOnly) then False
               else if length digitsOnly < 10 \<or> length digitsOnly > 15 then False
               else True))"

section \<open>RowValidator: validateAndCleanRow\<close>

text \<open>
  The quote-counting loop of the malformed-quote sweep: a quote directly followed by a
  quote is skipped together with it (\<^verbatim>\<open>i++\<close>), any other quote is counted.
\<close>

fun quoteCount :: "string \<Rightarrow> nat" where
  "quoteCount [] = 0"
| "quoteCount (c # cs) =
     (if c = DQ then
        (case cs of
           [] \<Rightarrow> Suc (quoteCount cs)
         | n # cs' \<Rightarrow> if n = DQ then quoteCount cs' else Suc (quoteCount cs))
      else quoteCount cs)"

text \<open>\<^verbatim>\<open>s.match(/^,.*["]/)\<close>: the dot matches everything but a line terminator.\<close>

definition commaThenQuote :: "string \<Rightarrow> bool" where
  "commaThenQuote s =
     (case s of
        [] \<Rightarrow> False
      | c # cs \<Rightarrow> c = COMMA \<and> DQ \<in> set (takeWhile (\<lambda>x. \<not> isLineTerminator x) cs))"

text \<open>\<^verbatim>\<open>s.match(/["].*,/)\<close>, which may start at any position\<close>

fun quoteThenComma :: "string \<Rightarrow> bool" where
  "quoteThenComma [] = False"
| "quoteThenComma (c # cs) =
     ((c = DQ \<and> COMMA \<in> set (takeWhile (\<lambda>x. \<not> isLineTerminator x) cs)) \<or> quoteThenComma cs)"

text \<open>The body of the sweep for one field: true when the field makes the row rejected.\<close>

definition malformedField :: "string \<Rightarrow> bool" where
  "malformedField field =
     (let trimmedField = trim field
      in (quoteCount trimmedField > 0 \<and> quoteCount trimmedField mod 2 \<noteq> 0) \<or>
         commaThenQuote trimmedField \<or> quoteThenComma trimmedField)"

text \<open>
  The three numeric parameters are JavaScript numbers; the column indices are -1 when
  the column is absent. \<^term>\<open>None\<close> is the \<^verbatim>\<open>null\<close> of a rejected row.
\<close>

definition validateAndCleanRow :: "row \<Rightarrow> int \<Rightarrow> int \<Rightarrow> int \<Rightarrow> row option" where
  "validateAndCleanRow row expectedColumns emailColumnIndex phoneColumnIndex =
     (if int (length row) \<noteq> expectedColumns then None
      else
        (let cleanedRow = map cleanField row;
             hasEmail = (emailColumnIndex \<ge> 0 \<and> emailColumnIndex < int (length cleanedRow));
             email = autoCorrectEmailDomain (cleanedRow ! nat emailColumnIndex);
             cleanedRow = (if hasEmail then cleanedRow[nat emailColumnIndex := email]
                           else cleanedRow)
         in if hasEmail \<and> \<not> isValidEmail email then None
            else
              (let hasPhone = (phoneColumnIndex \<ge> 0 \<and> phoneColumnIndex < int (length cleanedRow));
                   phone = cleanedRow ! nat phoneColumnIndex;
                   cleanedRow =
                     (if hasPhone \<and> phone \<noteq> [] \<and> length (trim phone) > 0 \<and>
                         \<not> isValidPhoneNumber phone
                      then cleanedRow[nat phoneColumnIndex := []]
                      else cleanedRow)
               in if list_ex malformedField cleanedRow then None
                  else Some cleanedRow)))"

section \<open>Serializer: arrayToCSV\<close>

text \<open>\<^verbatim>\<open>field.replace(/"/g, '""')\<close>\<close>

definition escapeQuotes :: "string \<Rightarrow> string" where
  "escapeQuotes field = concat (map (\<lambda>c. if c = DQ then [DQ, DQ] else [c]) field)"

definition serializeField :: "string \<Rightarrow> string" where
  "serializeField field =
     (if COMMA \<in> set field \<or> DQ \<in> set field \<or> NL \<in> set field
      then DQ # escapeQuotes field @ [DQ]
      else field)"

definition arrayToCSV :: "row list \<Rightarrow> string" where
  "arrayToCSV rows = join NL (map (\<lambda>row. join COMMA (map serializeField row)) rows)"

section \<open>Pipeline: validateAndCleanCSV\<close>

record parse_result =
  validRows :: "row list"
  invalidRowCount :: nat

text \<open>
  \<^term>\<open>Error\<close> is the \<^verbatim>\<open>Error\<close> the function throws, with its message.
  \<^term>\<open>TypeError\<close> is what the runtime throws at \<^verbatim>\<open>headers.length\<close> when
  \<^verbatim>\<open>rows[0]\<close> is \<^verbatim>\<open>undefined\<close>.
\<close>

datatype error = Error string | TypeError

definition countMismatchMessage :: "nat \<Rightarrow> nat \<Rightarrow> string" where
  "countMismatchMessage expected found =
     ''Column count mismatch. Expected '' @ showNat expected @
     '' columns, but CSV has '' @ showNat found @ '' columns.''"

definition nameMismatchMessage :: "nat \<Rightarrow> string \<Rightarrow> string \<Rightarrow> string" where
  "nameMismatchMessage i expected found =
     ''Column name mismatch at position '' @ showNat (i + 1) @ ''. Expected '' @ [DQ] @
     expected @ [DQ] @ '', but found '' @ [DQ] @ found @ [DQ] @ ''.''"

text \<open>The two index searches: the first matching position, or -1.\<close>

definition findColumnIndex :: "(string \<Rightarrow> bool) \<Rightarrow> string list \<Rightarrow> int" where
  "findColumnIndex p expectedColumns =
     (case find (\<lambda>i. p (toLowerCase (expectedColumns ! i))) [0 ..< length expectedColumns] of
        None \<Rightarrow> -1
      | Some i \<Rightarrow> int i)"

text \<open>The loop over the data rows, with \<^verbatim>\<open>validRows\<close> and \<^verbatim>\<open>invalidRowCount\<close>.\<close>

fun processRows :: "row list \<Rightarrow> int \<Rightarrow> int \<Rightarrow> int \<Rightarrow> row list \<Rightarrow> nat \<Rightarrow> row list \<times> nat" where
  "processRows [] n ei pi valid invalid = (valid, invalid)"
| "processRows (parsedRow # rest) n ei pi valid invalid =
     (case validateAndCleanRow parsedRow n ei pi of
        Some cleanedRow \<Rightarrow> processRows rest n ei pi (valid @ [cleanedRow]) invalid
      | None \<Rightarrow> processRows rest n ei pi valid (invalid + 1))"

text \<open>\<^verbatim>\<open>csvText.split('\n').filter(line => line.trim().length > 0).length === 0\<close>\<close>

definition isBlank :: "string \<Rightarrow> bool" where
  "isBlank csvText \<longleftrightarrow> filter (\<lambda>line. length (trim line) > 0) (split NL csvText) = []"

definition validateAndCleanCSV :: "string \<Rightarrow> string list \<Rightarrow> error + parse_result" where
  "validateAndCleanCSV csvText expectedColumns =
     (if isBlank csvText then Inr \<lparr>validRows = [], invalidRowCount = 0\<rparr>
      else
        (case parseCSV csvText of
           [] \<Rightarrow> Inl TypeError
         | headers # dataRows \<Rightarrow>
             if length headers \<noteq> length expectedColumns
             then Inl (Error (countMismatchMessage (length expectedColumns) (length headers)))
             else
               (let normalizedHeaders = map (\<lambda>h. trim (toLowerCase h)) headers;
                    normalizedExpected = map (\<lambda>c. trim (toLowerCase c)) expectedColumns
                in case find (\<lambda>i. normalizedHeaders ! i \<noteq> normalizedExpected ! i)
                             [0 ..< length normalizedExpected] of
                     Some i \<Rightarrow>
                       Inl (Error (nameMismatchMessage i (expectedColumns ! i) (headers ! i)))
                   | None \<Rightarrow>
                       (let emailColumnIndex =
                              findColumnIndex (includesStr ''email'') expectedColumns;
                            phoneColumnIndex =
                              findColumnIndex
                                (\<lambda>colName. includesStr ''phone'' colName \<or>
                                            includesStr ''mobile'' colName \<or>
                                            includesStr ''contact'' colName)
                                expectedColumns;
                            cleanedHeaders = map cleanField headers
                        in case processRows dataRows (int (length expectedColumns))
                                  emailColumnIndex phoneColumnIndex [cleanedHeaders] 0 of
                             (valid, invalid) \<Rightarrow>
                               Inr \<lparr>validRows = valid, invalidRowCount = invalid\<rparr>))))"

section \<open>Facts about the string primitives\<close>

lemma set_trim_subset: "set (trim s) \<subseteq> set s"
proof -
  have "set (trim s) \<subseteq> set (dropWhile isWhitespace s)"
    unfolding trim_def using set_dropWhileD [of _ isWhitespace "rev (dropWhile isWhitespace s)"]
    by auto
  also have "\<dots> \<subseteq> set s"
    using set_dropWhileD [of _ isWhitespace s] by auto
  finally show ?thesis .
qed

lemma trim_eq_Nil_iff: "trim s = [] \<longleftrightarrow> (\<forall>c\<in>set s. isWhitespace c)"
proof
  assume "trim s = []"
  then have "\<forall>c\<in>set (dropWhile isWhitespace s). isWhitespace c"
    by (simp add: trim_def dropWhile_eq_Nil_conv)
  then have "dropWhile isWhitespace s = []"
    using hd_dropWhile [of isWhitespace s] hd_in_set [of "dropWhile isWhitespace s"] by blast
  then show "\<forall>c\<in>set s. isWhitespace c"
    by (simp add: dropWhile_eq_Nil_conv)
next
  assume "\<forall>c\<in>set s. isWhitespace c"
  then have dw: "dropWhile isWhitespace s = []"
    by (simp add: dropWhile_eq_Nil_conv)
  show "trim s = []"
    unfolding trim_def dw by simp
qed

lemma dropWhile_rev_dropWhile:
  "dropWhile P (rev (dropWhile P (rev (dropWhile P s)))) = rev (dropWhile P (rev (dropWhile P s)))"
proof -
  define t where "t = dropWhile P s"
  define u where "u = rev (dropWhile P (rev t))"
  have split_t: "t = u @ rev (takeWhile P (rev t))"
  proof -
    have "rev (rev t) = rev (takeWhile P (rev t) @ dropWhile P (rev t))"
      by (simp only: takeWhile_dropWhile_id)
    then have "t = rev (dropWhile P (rev t)) @ rev (takeWhile P (rev t))"
      by (simp only: rev_rev_ident rev_append)
    then show ?thesis by (simp only: u_def)
  qed
  have "dropWhile P u = u"
  proof (cases u)
    case Nil
    then show ?thesis by simp
  next
    case (Cons x xs)
    then have "t = x # (xs @ rev (takeWhile P (rev t)))" using split_t by simp
    then have "t \<noteq> []" and "hd t = x"
      by (metis list.distinct(1), metis list.sel(1))
    then have "\<not> P x" using hd_dropWhile [of P s] by (simp add: t_def)
    then show ?thesis using Cons by simp
  qed
  then show ?thesis by (simp add: u_def t_def)
qed

lemma trim_idem: "trim (trim s) = trim s"
  by (simp add: trim_def dropWhile_rev_dropWhile)

lemma split_not_Nil: "split sep s \<noteq> []"
  by (induction s) (auto split: list.splits)

lemma split_Cons:
  "split sep (c # cs) =
     (if c = sep then [] # split sep cs else (c # hd (split sep cs)) # tl (split sep cs))"
  using split_not_Nil [of sep cs] by (auto split: list.splits)

lemma sep_notin_split: "p \<in> set (split sep s) \<Longrightarrow> sep \<notin> set p"
proof (induction s arbitrary: p)
  case Nil
  then show ?case by simp
next
  case (Cons c cs)
  obtain q qs where q: "split sep cs = q # qs"
    using split_not_Nil [of sep cs] by (cases "split sep cs") auto
  show ?case
  proof (cases "c = sep")
    case True
    with Cons show ?thesis by auto
  next
    case False
    with Cons.prems q have "p = c # q \<or> p \<in> set qs" by auto
    with Cons.IH q False show ?thesis by auto
  qed
qed

lemma set_split_subset: "p \<in> set (split sep s) \<Longrightarrow> set p \<subseteq> set s"
proof (induction s arbitrary: p)
  case Nil
  then show ?case by simp
next
  case (Cons c cs)
  obtain q qs where q: "split sep cs = q # qs"
    using split_not_Nil [of sep cs] by (cases "split sep cs") auto
  show ?case
  proof (cases "c = sep")
    case True
    with Cons show ?thesis by auto
  next
    case False
    with Cons.prems q have "p = c # q \<or> p \<in> set qs" by auto
    with Cons.IH q show ?thesis by fastforce
  qed
qed

lemma join_Cons_hd: "join sep ((c # p) # ps) = c # join sep (p # ps)"
  by (cases ps) auto

lemma join_split: "join sep (split sep s) = s"
proof (induction s)
  case Nil
  then show ?case by simp
next
  case (Cons c cs)
  obtain q qs where q: "split sep cs = q # qs"
    using split_not_Nil [of sep cs] by (cases "split sep cs") auto
  with Cons show ?case by (auto simp: join_Cons_hd)
qed

section \<open>Facts about cleanField\<close>

lemma cleanField_plain:
  assumes "COMMA \<notin> set f" and "DQ \<notin> set f"
  shows "cleanField f = trim f"
proof -
  have c: "COMMA \<notin> set (trim f)" and d: "DQ \<notin> set (trim f)"
    using assms set_trim_subset [of f] by auto
  have "\<not> startsWith COMMA (trim f)"
    using c by (auto simp: startsWith_def split: list.splits)
  moreover have "\<not> startsWith DQ (trim f)"
    using d by (auto simp: startsWith_def split: list.splits)
  moreover have "\<not> endsWith COMMA (trim f)"
  proof
    assume "endsWith COMMA (trim f)"
    then have "COMMA \<in> set (rev (trim f))"
      by (auto simp: endsWith_def split: list.splits)
    with c show False by simp
  qed
  ultimately show ?thesis by (simp add: cleanField_def)
qed

lemma length_trim_le: "length (trim s) \<le> length s"
proof -
  have "length (trim s) \<le> length (dropWhile isWhitespace s)"
    unfolding trim_def using length_dropWhile_le [of isWhitespace "rev (dropWhile isWhitespace s)"]
    by simp
  also have "\<dots> \<le> length s" by (rule length_dropWhile_le)
  finally show ?thesis .
qed

lemma startsWith_not_Nil: "startsWith c s \<Longrightarrow> s \<noteq> []"
  by (auto simp: startsWith_def)

lemma endsWith_not_Nil: "endsWith c s \<Longrightarrow> s \<noteq> []"
  by (auto simp: endsWith_def)

text \<open>The quote and trailing-comma rules never make a field longer.\<close>

lemma unwrap_length_le:
  "length (if startsWith DQ t \<and> endsWith DQ t \<and> length t > 1
           then (if endsWith COMMA (butlast (drop 1 t)) then butlast (butlast (drop 1 t))
                 else butlast (drop 1 t))
           else if endsWith COMMA t then trim (butlast t) else t) \<le> length t"
  using length_trim_le [of "butlast t"] by auto

text \<open>
  Every rule of \<^verbatim>\<open>cleanField\<close> that fires after the first trim makes the field
  strictly shorter; when none fires the result is the trimmed field.
\<close>

lemma cleanField_shrinks:
  "length (cleanField f) < length (trim f) \<or>
   (cleanField f = trim f \<and> \<not> startsWith COMMA (trim f) \<and> \<not> endsWith COMMA (trim f) \<and>
    \<not> (startsWith DQ (trim f) \<and> endsWith DQ (trim f) \<and> length (trim f) > 1))"
proof (cases "startsWith COMMA (trim f)")
  case True
  define t1 where "t1 = trim (drop 1 (trim f))"
  have "trim f \<noteq> []" using True by (rule startsWith_not_Nil)
  then obtain x xs where tf: "trim f = x # xs" by (cases "trim f") auto
  have l: "length t1 < length (trim f)"
    using length_trim_le [of xs] by (simp add: t1_def tf)
  have "length (cleanField f) \<le> length t1"
    using True unwrap_length_le [of "trim (drop 1 (trim f))"]
    unfolding cleanField_def Let_def t1_def by (auto split: if_splits)
  with l show ?thesis by simp
next
  case False
  show ?thesis
  proof (cases "startsWith DQ (trim f) \<and> endsWith DQ (trim f) \<and> length (trim f) > 1")
    case True
    then have "length (cleanField f) < length (trim f)"
      using False by (auto simp: cleanField_def Let_def)
    then show ?thesis by simp
  next
    case w: False
    show ?thesis
    proof (cases "endsWith COMMA (trim f)")
      case True
      then have "trim f \<noteq> []" by (rule endsWith_not_Nil)
      then obtain xs x where tf: "trim f = xs @ [x]" by (cases "trim f" rule: rev_cases) auto
      have "length (trim (butlast (trim f))) < length (trim f)"
        using length_trim_le [of xs] by (simp add: tf)
      then have "length (cleanField f) < length (trim f)"
        using False w True by (auto simp: cleanField_def Let_def)
      then show ?thesis by simp
    next
      case e: False
      then show ?thesis using False w by (auto simp: cleanField_def Let_def)
    qed
  qed
qed

text \<open>
  The fields that \<^verbatim>\<open>cleanField\<close> leaves as they are: no surrounding whitespace, no
  leading and no trailing comma, and not wrapped in a pair of double quotes.
\<close>

lemma cleanField_fixed_iff:
  "cleanField g = g \<longleftrightarrow>
     trim g = g \<and> \<not> startsWith COMMA g \<and> \<not> endsWith COMMA g \<and>
     \<not> (startsWith DQ g \<and> endsWith DQ g \<and> length g > 1)"
proof
  assume fx: "cleanField g = g"
  have "\<not> length (cleanField g) < length (trim g)"
    using fx length_trim_le [of g] by simp
  with cleanField_shrinks [of g]
  have c: "cleanField g = trim g" and r: "\<not> startsWith COMMA (trim g)" "\<not> endsWith COMMA (trim g)"
    "\<not> (startsWith DQ (trim g) \<and> endsWith DQ (trim g) \<and> length (trim g) > 1)"
    by blast+
  from c fx have "trim g = g" by simp
  with r show "trim g = g \<and> \<not> startsWith COMMA g \<and> \<not> endsWith COMMA g \<and>
     \<not> (startsWith DQ g \<and> endsWith DQ g \<and> length g > 1)" by simp
next
  assume "trim g = g \<and> \<not> startsWith COMMA g \<and> \<not> endsWith COMMA g \<and>
     \<not> (startsWith DQ g \<and> endsWith DQ g \<and> length g > 1)"
  then show "cleanField g = g" by (auto simp: cleanField_def Let_def)
qed

text \<open>
  A condition on the input alone: when the trimmed field neither starts nor ends with a
  comma and is not wrapped in quotes, one pass only trims and a second changes nothing.
  Interior commas and quotes are allowed.
\<close>

lemma cleanField_idempotent_trimmed:
  assumes "\<not> startsWith COMMA (trim f)" and "\<not> endsWith COMMA (trim f)"
    and "\<not> (startsWith DQ (trim f) \<and> endsWith DQ (trim f) \<and> length (trim f) > 1)"
  shows "cleanField f = trim f \<and> cleanField (cleanField f) = cleanField f"
proof -
  have c: "cleanField f = trim f"
    using assms by (auto simp: cleanField_def Let_def)
  have "cleanField (trim f) = trim f"
    using assms by (simp add: cleanField_fixed_iff trim_idem)
  with c show ?thesis by simp
qed

section \<open>The pipeline on blank input\<close>

text \<open>
  Claim C1, as the code has it: for every non-empty \<^verbatim>\<open>expectedColumns\<close> list, if the
  input text is blank (no line holds a character that is not whitespace),
  \<^verbatim>\<open>validateAndCleanCSV\<close> raises nothing: it returns the result with no valid rows and
  \<^verbatim>\<open>invalidRowCount\<close> 0.
\<close>

theorem validateAndCleanCSV_blank:
  assumes "expectedColumns \<noteq> []" and "isBlank csvText"
  shows "validateAndCleanCSV csvText expectedColumns = Inr \<lparr>validRows = [], invalidRowCount = 0\<rparr>"
  using assms by (simp add: validateAndCleanCSV_def)

text \<open>The theorem of C1 at the text of two blank lines and the column list [name].\<close>

theorem validateAndCleanCSV_blank_witness:
  "[''name''] \<noteq> [] \<and> isBlank ''  \<newline> '' \<and>
   validateAndCleanCSV ''  \<newline> '' [''name''] = Inr \<lparr>validRows = [], invalidRowCount = 0\<rparr>"
proof -
  have n: "[''name''] \<noteq> []" by simp
  have b: "isBlank ''  \<newline> ''" by code_simp
  show ?thesis using n b validateAndCleanCSV_blank [OF n b] by blast
qed

text \<open>
  Claim C1 as the specification states it fails: on the empty text, which is blank, and
  the non-empty column list [name], the pipeline returns a result and not an error.
\<close>

theorem validateAndCleanCSV_blank_counterexample:
  "[''name''] \<noteq> [] \<and> isBlank [] \<and>
   validateAndCleanCSV [] [''name''] = Inr \<lparr>validRows = [], invalidRowCount = 0\<rparr>"
  by code_simp

section \<open>The failure surface of the pipeline\<close>

text \<open>
  Claim C2: the text of a single comma is not blank, so it passes the blank-input check,
  but its only row has no non-empty field and the tokenizer drops it. The header access
  then finds no row, and the pipeline fails with the runtime's TypeError, which is not the
  structural error of header validation.
\<close>

theorem validateAndCleanCSV_missing_header:
  "\<not> isBlank '','' \<and> validateAndCleanCSV '','' [''name''] = Inl TypeError"
  by code_simp

text \<open>The tokenizer on that text: no row at all.\<close>

lemma parseCSV_single_comma: "parseCSV '','' = []"
  by code_simp

section \<open>Idempotence of cleanField\<close>




section \<open>The examples of the specification\<close>

text \<open>
  Claim C5: for the expected columns [name, email] and the three-line text of the
  specification, the pipeline returns the cleaned header followed by the one data row
  [Ada, ada@x.com], the typo of the address corrected, and counts one invalid row.
\<close>

theorem validateAndCleanCSV_example:
  "validateAndCleanCSV ''name,email\<newline>Ada,ada@x.con\<newline>Bob,not-an-email\<newline>''
     [''name'', ''email''] =
   Inr \<lparr>validRows = [[''name'', ''email''], [''Ada'', ''ada@x.com'']], invalidRowCount = 1\<rparr>"
  by code_simp

text \<open>
  Claim C6: the normalizer maps a@b.con to a@b.com through the typo table, and returns
  a@b.io unchanged, the suffix .io being on the list of valid suffixes that are never
  rewritten.
\<close>

theorem autoCorrectEmailDomain_examples:
  "autoCorrectEmailDomain ''a@b.con'' = ''a@b.com'' \<and>
   map_of typoCorrections ''.con'' = Some ''.com'' \<and>
   autoCorrectEmailDomain ''a@b.io'' = ''a@b.io'' \<and>
   ''.io'' \<in> set validTLDs"
  by code_simp

section \<open>The rows of the tokenizer\<close>

lemma parseLines_rows_nonEmpty:
  assumes "\<forall>r\<in>set rows. nonEmptyRow r"
    and "parseLines ls rows cr cf q = (rows', cr', cf', q')"
  shows "\<forall>r\<in>set rows'. nonEmptyRow r"
  using assms
proof (induction ls arbitrary: rows cr cf q)
  case Nil
  then show ?case by simp
next
  case (Cons l ls)
  obtain a b c where s: "scanLine l cr cf q = (a, b, c)"
    by (cases "scanLine l cr cf q") auto
  show ?case
  proof (cases c)
    case True
    with s Cons.prems(2) have "parseLines ls rows a (b @ [NL]) c = (rows', cr', cf', q')"
      by simp
    with Cons.IH Cons.prems(1) show ?thesis by blast
  next
    case False
    define a' where "a' = (if b \<noteq> [] \<or> a \<noteq> [] then a @ [trim b] else a)"
    define rows1 where "rows1 = (if nonEmptyRow a' then rows @ [a'] else rows)"
    have "parseLines ls rows1 [] [] c = (rows', cr', cf', q')"
      using s False Cons.prems(2) by (auto simp: a'_def rows1_def Let_def)
    moreover have "\<forall>r\<in>set rows1. nonEmptyRow r"
      using Cons.prems(1) by (simp add: rows1_def)
    ultimately show ?thesis using Cons.IH by blast
  qed
qed

lemma parseCSV_nonEmptyRow: "\<forall>r\<in>set (parseCSV csvText). nonEmptyRow r"
proof -
  obtain rows cr cf q where p: "parseLines (split NL csvText) [] [] [] False = (rows, cr, cf, q)"
    by (cases "parseLines (split NL csvText) [] [] [] False") auto
  have "\<forall>r\<in>set rows. nonEmptyRow r"
    using parseLines_rows_nonEmpty [OF _ p] by simp
  then show ?thesis
    by (simp add: parseCSV_def p Let_def)
qed

text \<open>
  Claim C9: for every input text, every row that \<^verbatim>\<open>parseCSV\<close> returns holds at least
  one non-empty field; a row whose fields are all empty never appears in the output.
\<close>

theorem parseCSV_rows_have_content:
  "\<forall>row\<in>set (parseCSV csvText). row \<noteq> [] \<and> (\<exists>field\<in>set row. field \<noteq> [])"
  using parseCSV_nonEmptyRow [of csvText] by (simp add: nonEmptyRow_def list_ex_iff)

text \<open>
  The theorem of C9 at a text with a line of commas and a line of blanks between two
  lines of data: both are dropped, and the two rows kept have a non-empty field.
\<close>

theorem parseCSV_rows_have_content_witness:
  "parseCSV ''a,,\<newline>,,\<newline>  \<newline>b'' = [[''a'', [], []], [''b'']] \<and>
   list_all (\<lambda>row. row \<noteq> [] \<and> list_ex (\<lambda>field. field \<noteq> []) row)
     (parseCSV ''a,,\<newline>,,\<newline>  \<newline>b'')"
proof -
  have e: "parseCSV ''a,,\<newline>,,\<newline>  \<newline>b'' = [[''a'', [], []], [''b'']]"
    by code_simp
  show ?thesis
    using e parseCSV_rows_have_content [of "''a,,\<newline>,,\<newline>  \<newline>b''"]
    by (auto simp only: list_all_iff list_ex_iff)
qed

section \<open>The width of the rows that the pipeline returns\<close>

lemma validateAndCleanRow_length:
  "validateAndCleanRow row n ei pi = Some r \<Longrightarrow> int (length r) = n"
  by (auto simp: validateAndCleanRow_def Let_def split: if_splits)

lemma processRows_invariant:
  assumes "\<forall>r\<in>set valid. int (length r) = n"
    and "processRows rs n ei pi valid invalid = (v, i)"
  shows "(\<forall>r\<in>set v. int (length r) = n) \<and> (\<exists>more. v = valid @ more)"
  using assms
proof (induction rs arbitrary: valid invalid)
  case Nil
  then show ?case by simp
next
  case (Cons x rs)
  show ?case
  proof (cases "validateAndCleanRow x n ei pi")
    case None
    with Cons.prems have "processRows rs n ei pi valid (invalid + 1) = (v, i)" by simp
    with Cons.IH Cons.prems(1) show ?thesis by blast
  next
    case (Some r)
    with Cons.prems have p: "processRows rs n ei pi (valid @ [r]) invalid = (v, i)" by simp
    have "\<forall>r'\<in>set (valid @ [r]). int (length r') = n"
      using Cons.prems(1) validateAndCleanRow_length [OF Some] by simp
    from Cons.IH [OF this p] show ?thesis by auto
  qed
qed

text \<open>
  Claim C10: whenever \<^verbatim>\<open>validateAndCleanCSV\<close> returns a result on an input that is not
  blank, \<^verbatim>\<open>validRows\<close> starts with the cleaned header, and every row of it, the header
  and every accepted data row, has exactly as many fields as \<^verbatim>\<open>expectedColumns\<close>.
\<close>

theorem validateAndCleanCSV_row_widths:
  assumes "validateAndCleanCSV csvText expectedColumns = Inr result"
    and "\<not> isBlank csvText"
  shows "validRows result \<noteq> [] \<and>
         hd (validRows result) = map cleanField (hd (parseCSV csvText)) \<and>
         (\<forall>row\<in>set (validRows result). length row = length expectedColumns)"
proof (cases "parseCSV csvText")
  case Nil
  with assms show ?thesis by (simp add: validateAndCleanCSV_def)
next
  case (Cons headers dataRows)
  define ei where "ei = findColumnIndex (includesStr ''email'') expectedColumns"
  define pi where "pi = findColumnIndex
     (\<lambda>colName. includesStr ''phone'' colName \<or> includesStr ''mobile'' colName \<or>
                 includesStr ''contact'' colName) expectedColumns"
  obtain v i where p: "processRows dataRows (int (length expectedColumns)) ei pi
      [map cleanField headers] 0 = (v, i)"
    by (cases "processRows dataRows (int (length expectedColumns)) ei pi
      [map cleanField headers] 0") auto
  have len: "length headers = length expectedColumns"
    using assms Cons by (auto simp: validateAndCleanCSV_def split: if_splits)
  have res: "result = \<lparr>validRows = v, invalidRowCount = i\<rparr>"
    using assms Cons len p
    by (auto simp: validateAndCleanCSV_def Let_def ei_def pi_def split: option.splits)
  have "\<forall>r\<in>set [map cleanField headers]. int (length r) = int (length expectedColumns)"
    using len by simp
  from processRows_invariant [OF this p]
  have "\<forall>r\<in>set v. length r = length expectedColumns"
    and "\<exists>more. v = map cleanField headers # more"
    by auto
  then show ?thesis using res Cons by auto
qed

text \<open>
  The theorem of C10 at a text with a phone column: the data row with a short phone is
  kept at full width with the phone cleared, and the two-field row is rejected.
\<close>

theorem validateAndCleanCSV_row_widths_witness:
  "validateAndCleanCSV ''name,email,phone\<newline>Bob,bob@x.com,123\<newline>short,row''
     [''name'', ''email'', ''phone''] =
   Inr \<lparr>validRows = [[''name'', ''email'', ''phone''], [''Bob'', ''bob@x.com'', []]],
        invalidRowCount = 1\<rparr> \<and>
   \<not> isBlank ''name,email,phone\<newline>Bob,bob@x.com,123\<newline>short,row'' \<and>
   list_all (\<lambda>row. length row = length [''name'', ''email'', ''phone''])
     (validRows \<lparr>validRows = [[''name'', ''email'', ''phone''], [''Bob'', ''bob@x.com'', []]],
                 invalidRowCount = 1\<rparr>)"
proof -
  have r: "validateAndCleanCSV ''name,email,phone\<newline>Bob,bob@x.com,123\<newline>short,row''
      [''name'', ''email'', ''phone''] =
    Inr \<lparr>validRows = [[''name'', ''email'', ''phone''], [''Bob'', ''bob@x.com'', []]],
         invalidRowCount = 1\<rparr>"
    by code_simp
  have b: "\<not> isBlank ''name,email,phone\<newline>Bob,bob@x.com,123\<newline>short,row''"
    by code_simp
  show ?thesis
    using r b validateAndCleanCSV_row_widths [OF r b]
    by (auto simp only: list_all_iff)
qed

section \<open>Blank input and the tokenizer\<close>

lemma scanLine_separators:
  assumes "\<forall>c\<in>set cs. isWhitespace c \<or> c = COMMA"
    and "\<forall>f\<in>set cr. f = []"
    and "\<forall>c\<in>set cf. isWhitespace c"
  shows "\<exists>cr' cf'. scanLine cs cr cf False = (cr', cf', False) \<and>
           (\<forall>f\<in>set cr'. f = []) \<and> (\<forall>c\<in>set cf'. isWhitespace c)"
  using assms
proof (induction cs arbitrary: cr cf)
  case Nil
  then show ?case by simp
next
  case (Cons c cs)
  have nq: "c \<noteq> DQ"
    using Cons.prems(1) by (auto simp: isWhitespace_def)
  have rest: "\<forall>c\<in>set cs. isWhitespace c \<or> c = COMMA"
    using Cons.prems(1) by simp
  show ?case
  proof (cases "c = COMMA")
    case True
    have "trim cf = []"
      using Cons.prems(3) by (simp add: trim_eq_Nil_iff)
    then have "\<forall>f\<in>set (cr @ [trim cf]). f = []"
      using Cons.prems(2) by simp
    from Cons.IH [OF rest this, of "[]"] show ?thesis
      using True by simp
  next
    case False
    then have "isWhitespace c"
      using Cons.prems(1) by simp
    then have "\<forall>x\<in>set (cf @ [c]). isWhitespace x"
      using Cons.prems(3) by simp
    from Cons.IH [OF rest Cons.prems(2) this] show ?thesis
      using False nq by simp
  qed
qed

lemma parseLines_separators:
  assumes "\<forall>l\<in>set ls. \<forall>c\<in>set l. isWhitespace c \<or> c = COMMA"
  shows "parseLines ls rows [] [] False = (rows, [], [], False)"
  using assms
proof (induction ls)
  case Nil
  then show ?case by simp
next
  case (Cons l ls)
  have "\<forall>c\<in>set l. isWhitespace c \<or> c = COMMA"
    using Cons.prems by simp
  from scanLine_separators [OF this, of "[]" "[]"]
  obtain cr' cf' where s: "scanLine l [] [] False = (cr', cf', False)"
    and e: "\<forall>f\<in>set cr'. f = []" and w: "\<forall>c\<in>set cf'. isWhitespace c"
    by auto
  have t: "trim cf' = []"
    using w by (simp add: trim_eq_Nil_iff)
  have "\<not> nonEmptyRow (cr' @ [trim cf'])" and "\<not> nonEmptyRow cr'" and "\<not> nonEmptyRow []"
    using e t by (auto simp: nonEmptyRow_def list_ex_iff)
  then have "parseLines (l # ls) rows [] [] False = parseLines ls rows [] [] False"
    using s by (simp add: Let_def)
  with Cons show ?case by simp
qed

lemma parseCSV_separators:
  assumes "\<forall>l\<in>set (split NL csvText). \<forall>c\<in>set l. isWhitespace c \<or> c = COMMA"
  shows "parseCSV csvText = []"
  by (simp add: parseCSV_def parseLines_separators [OF assms])

lemma isBlank_iff: "isBlank csvText \<longleftrightarrow> (\<forall>l\<in>set (split NL csvText). \<forall>c\<in>set l. isWhitespace c)"
  by (simp add: isBlank_def filter_empty_conv trim_eq_Nil_iff)

lemma parseCSV_blank: "isBlank csvText \<Longrightarrow> parseCSV csvText = []"
  by (rule parseCSV_separators) (auto simp: isBlank_iff)

section \<open>The column count check\<close>

lemma countMismatchMessage_3_2:
  "countMismatchMessage 3 2 = ''Column count mismatch. Expected 3 columns, but CSV has 2 columns.''"
  by code_simp

text \<open>
  Claim C7: for every \<^verbatim>\<open>expectedColumns\<close> list of length 3 and every input whose parsed
  header row has exactly 2 fields, the pipeline fails with the structural error, and the
  message reports the expected count 3 and the found count 2.
\<close>

theorem validateAndCleanCSV_count_mismatch:
  assumes "length expectedColumns = 3"
    and "parseCSV csvText = headers # dataRows"
    and "length headers = 2"
  shows "validateAndCleanCSV csvText expectedColumns =
         Inl (Error ''Column count mismatch. Expected 3 columns, but CSV has 2 columns.'')"
proof -
  have "\<not> isBlank csvText"
    using assms(2) parseCSV_blank [of csvText] by auto
  then have "validateAndCleanCSV csvText expectedColumns = Inl (Error (countMismatchMessage 3 2))"
    using assms by (simp add: validateAndCleanCSV_def)
  then show ?thesis by (simp only: countMismatchMessage_3_2)
qed

text \<open>The theorem of C7 at a two-field header against three expected columns.\<close>

theorem validateAndCleanCSV_count_mismatch_witness:
  "length [''name'', ''email'', ''phone''] = 3 \<and>
   parseCSV ''name,email\<newline>Ada,ada@x.com'' = [''name'', ''email''] # [[''Ada'', ''ada@x.com'']] \<and>
   length [''name'', ''email''] = 2 \<and>
   validateAndCleanCSV ''name,email\<newline>Ada,ada@x.com'' [''name'', ''email'', ''phone''] =
     Inl (Error ''Column count mismatch. Expected 3 columns, but CSV has 2 columns.'')"
proof -
  have a: "length [''name'', ''email'', ''phone''] = 3" by simp
  have b: "parseCSV ''name,email\<newline>Ada,ada@x.com'' =
      [''name'', ''email''] # [[''Ada'', ''ada@x.com'']]"
    by code_simp
  have c: "length [''name'', ''email''] = 2" by simp
  show ?thesis
    using a b c validateAndCleanCSV_count_mismatch [OF a b c] by blast
qed

section \<open>The optional phone field\<close>

text \<open>
  Claim C4, amended: for every row whose length equals the expected width, whose email
  field (when an email index is present) validates after normalization, whose phone field
  at the given in-range phone index is non-empty after trimming but fails
  \<^verbatim>\<open>isValidPhoneNumber\<close>, and none of whose cleaned fields trips the malformed-quote
  sweep, \<^verbatim>\<open>validateAndCleanRow\<close> does not reject the row: it returns the cleaned row,
  the email normalized, with that phone field overwritten by the empty string.
\<close>

theorem validateAndCleanRow_invalid_phone:
  assumes len: "int (length row) = expectedColumns"
    and cleaned: "cleanedRow =
       (if 0 \<le> ei \<and> ei < expectedColumns
        then (map cleanField row)[nat ei := autoCorrectEmailDomain (cleanField (row ! nat ei))]
        else map cleanField row)"
    and email: "0 \<le> ei \<and> ei < expectedColumns \<longrightarrow> isValidEmail (cleanedRow ! nat ei)"
    and pidx: "0 \<le> pi" "pi < expectedColumns"
    and phone: "trim (cleanedRow ! nat pi) \<noteq> []" "\<not> isValidPhoneNumber (cleanedRow ! nat pi)"
    and sweep: "\<forall>field\<in>set (cleanedRow[nat pi := []]). \<not> malformedField field"
  shows "validateAndCleanRow row expectedColumns ei pi = Some (cleanedRow[nat pi := []])"
proof -
  have ne: "cleanedRow ! nat pi \<noteq> []"
    using phone(1) by (auto simp: trim_def)
  have nl: "\<not> list_ex malformedField (cleanedRow[nat pi := []])"
    using sweep by (simp add: list_ex_iff)
  show ?thesis
  proof (cases "0 \<le> ei \<and> ei < expectedColumns")
    case True
    then have n: "nat ei < length row" using len by auto
    have c: "cleanedRow = (map cleanField row)[nat ei := autoCorrectEmailDomain (cleanField (row ! nat ei))]"
      using cleaned True by simp
    have v: "isValidEmail (autoCorrectEmailDomain (cleanField (row ! nat ei)))"
      using email True n by (simp add: c)
    have lc: "length cleanedRow = length row"
      using c by simp
    show ?thesis
      using True len pidx phone ne nl v n lc
      unfolding validateAndCleanRow_def Let_def c [symmetric]
      by (simp add: c [symmetric])
  next
    case False
    have c: "cleanedRow = map cleanField row"
      using cleaned False by simp
    have lc: "length cleanedRow = length row"
      using c by simp
    show ?thesis
      using False len pidx phone ne nl lc
      unfolding validateAndCleanRow_def Let_def c [symmetric]
      by (auto simp: c [symmetric])
  qed
qed

text \<open>
  The theorem of C4 at the row of the specification: the phone 123 is too short and is
  cleared, and the row is accepted.
\<close>

theorem validateAndCleanRow_invalid_phone_witness:
  "validateAndCleanRow [''Bob'', ''bob@x.com'', ''123''] 3 1 2 = Some [''Bob'', ''bob@x.com'', []]"
proof -
  have c: "[''Bob'', ''bob@x.com'', ''123''] =
     (if (0::int) \<le> 1 \<and> (1::int) < 3
      then (map cleanField [''Bob'', ''bob@x.com'', ''123''])
             [nat 1 := autoCorrectEmailDomain (cleanField ([''Bob'', ''bob@x.com'', ''123''] ! nat 1))]
      else map cleanField [''Bob'', ''bob@x.com'', ''123''])"
    by code_simp
  have e: "(0::int) \<le> 1 \<and> (1::int) < 3 \<longrightarrow> isValidEmail ([''Bob'', ''bob@x.com'', ''123''] ! nat 1)"
    by code_simp
  have p: "trim ([''Bob'', ''bob@x.com'', ''123''] ! nat 2) \<noteq> []"
    "\<not> isValidPhoneNumber ([''Bob'', ''bob@x.com'', ''123''] ! nat 2)"
    by code_simp+
  have s: "\<forall>field\<in>set ([''Bob'', ''bob@x.com'', ''123''][nat 2 := []]). \<not> malformedField field"
    by code_simp
  have u: "[''Bob'', ''bob@x.com'', ''123''][nat 2 := []] = [''Bob'', ''bob@x.com'', []]"
    by code_simp
  have "validateAndCleanRow [''Bob'', ''bob@x.com'', ''123''] 3 1 2 =
        Some ([''Bob'', ''bob@x.com'', ''123''][nat 2 := []])"
    by (rule validateAndCleanRow_invalid_phone [OF _ c e _ _ p s]) simp_all
  then show ?thesis by (simp only: u)
qed

text \<open>
  Claim C4 as stated fails: a row of the expected width with a valid email and a phone
  that is non-empty and invalid is still rejected when another field holds an unmatched
  double quote.
\<close>

theorem validateAndCleanRow_invalid_phone_counterexample:
  "int (length [[CHR ''a'', DQ, CHR ''b''], ''bob@x.com'', ''123'']) = 3 \<and>
   isValidEmail (autoCorrectEmailDomain (cleanField ''bob@x.com'')) \<and>
   trim (cleanField ''123'') \<noteq> [] \<and>
   \<not> isValidPhoneNumber (cleanField ''123'') \<and>
   validateAndCleanRow [[CHR ''a'', DQ, CHR ''b''], ''bob@x.com'', ''123''] 3 1 2 = None"
  by code_simp

section \<open>Tokenizer then Serializer on clean, unquoted input\<close>

lemma scanLine_unquoted:
  assumes "DQ \<notin> set cs"
  shows "scanLine cs cr cf False =
           (cr @ map trim (butlast ((cf @ hd (split COMMA cs)) # tl (split COMMA cs))),
            last ((cf @ hd (split COMMA cs)) # tl (split COMMA cs)), False)"
  using assms
proof (induction cs arbitrary: cr cf)
  case Nil
  then show ?case by simp
next
  case (Cons c cs)
  have nq: "c \<noteq> DQ" and rest: "DQ \<notin> set cs"
    using Cons.prems by auto
  have sp: "hd (split COMMA cs) # tl (split COMMA cs) = split COMMA cs"
    using split_not_Nil [of COMMA cs] by simp
  show ?case
  proof (cases "c = COMMA")
    case True
    have "scanLine (c # cs) cr cf False = scanLine cs (cr @ [trim cf]) [] False"
      using True by simp
    also have "\<dots> = ((cr @ [trim cf]) @ map trim (butlast (split COMMA cs)),
                     last (split COMMA cs), False)"
      using Cons.IH [OF rest, of "cr @ [trim cf]" "[]"] sp by simp
    finally show ?thesis
      using True split_not_Nil [of COMMA cs] by (simp add: split_Cons del: split.simps)
  next
    case False
    have "scanLine (c # cs) cr cf False = scanLine cs cr (cf @ [c]) False"
      using False nq by simp
    also have "\<dots> = (cr @ map trim (butlast (((cf @ [c]) @ hd (split COMMA cs)) # tl (split COMMA cs))),
                     last (((cf @ [c]) @ hd (split COMMA cs)) # tl (split COMMA cs)), False)"
      using Cons.IH [OF rest, of cr "cf @ [c]"] by simp
    finally show ?thesis
      using False by (simp add: split_Cons del: split.simps)
  qed
qed

lemma scanLine_unquoted_start:
  assumes "DQ \<notin> set l"
  shows "scanLine l [] [] False =
           (map trim (butlast (split COMMA l)), last (split COMMA l), False)"
proof -
  have "hd (split COMMA l) # tl (split COMMA l) = split COMMA l"
    using split_not_Nil [of COMMA l] by simp
  then show ?thesis
    using scanLine_unquoted [OF assms, of "[]" "[]"] by simp
qed

lemma parseLines_clean:
  assumes "\<forall>l\<in>set ls. DQ \<notin> set l \<and> (\<forall>f\<in>set (split COMMA l). trim f = f) \<and>
             (\<exists>f\<in>set (split COMMA l). f \<noteq> [])"
  shows "parseLines ls rows [] [] False = (rows @ map (split COMMA) ls, [], [], False)"
  using assms
proof (induction ls arbitrary: rows)
  case Nil
  then show ?case by simp
next
  case (Cons l ls)
  define ps where "ps = split COMMA l"
  have nq: "DQ \<notin> set l" and tr: "\<forall>f\<in>set ps. trim f = f" and ex: "\<exists>f\<in>set ps. f \<noteq> []"
    using Cons.prems by (auto simp: ps_def)
  have pn: "ps \<noteq> []"
    by (simp add: ps_def split_not_Nil)
  have bl: "butlast ps @ [last ps] = ps"
    using pn by simp
  have mb: "map trim (butlast ps) = butlast ps"
    using tr by (auto intro!: map_idI dest: in_set_butlastD)
  have tl: "trim (last ps) = last ps"
    using tr pn by simp
  have s: "scanLine l [] [] False = (butlast ps, last ps, False)"
    using scanLine_unquoted_start [OF nq] mb by (simp add: ps_def)
  have c: "last ps \<noteq> [] \<or> butlast ps \<noteq> []"
  proof (rule ccontr)
    assume "\<not> (last ps \<noteq> [] \<or> butlast ps \<noteq> [])"
    then have "ps = [[]]" using bl by auto
    with ex show False by simp
  qed
  have n: "nonEmptyRow ps"
    using ex pn by (simp add: nonEmptyRow_def list_ex_iff)
  have "parseLines (l # ls) rows [] [] False = parseLines ls (rows @ [ps]) [] [] False"
    using s c n bl tl by (auto simp: Let_def)
  also have "\<dots> = ((rows @ [ps]) @ map (split COMMA) ls, [], [], False)"
    using Cons.IH [of "rows @ [ps]"] Cons.prems by simp
  finally show ?case by (simp add: ps_def)
qed

lemma serializeField_plain:
  "COMMA \<notin> set f \<Longrightarrow> DQ \<notin> set f \<Longrightarrow> NL \<notin> set f \<Longrightarrow> serializeField f = f"
  by (simp add: serializeField_def)

text \<open>
  Claim C8: for every input without a double quote in which every physical line is a
  row (it has a non-empty field) and every comma-separated field is already clean,
  the tokenizer returns the fields of the lines as they are, and serializing its output
  reproduces the input text exactly.
\<close>

theorem arrayToCSV_parseCSV_clean:
  assumes unquoted: "DQ \<notin> set csvText"
    and clean: "\<forall>line\<in>set (split NL csvText).
                  (\<forall>field\<in>set (split COMMA line). cleanField field = field) \<and>
                  (\<exists>field\<in>set (split COMMA line). field \<noteq> [])"
  shows "parseCSV csvText = map (split COMMA) (split NL csvText) \<and>
         arrayToCSV (parseCSV csvText) = csvText"
proof -
  have line: "DQ \<notin> set l \<and> NL \<notin> set l" if "l \<in> set (split NL csvText)" for l
    using that unquoted set_split_subset [of l NL csvText] sep_notin_split [of l NL csvText]
    by auto
  have field: "COMMA \<notin> set f \<and> DQ \<notin> set f \<and> NL \<notin> set f"
    if "l \<in> set (split NL csvText)" and "f \<in> set (split COMMA l)" for l f
    using that line [of l] set_split_subset [of f COMMA l] sep_notin_split [of f COMMA l]
    by auto
  have trimmed: "trim f = f"
    if "l \<in> set (split NL csvText)" and "f \<in> set (split COMMA l)" for l f
  proof -
    have "cleanField f = trim f"
      using field [OF that] by (simp add: cleanField_plain)
    moreover have "cleanField f = f"
      using clean that by blast
    ultimately show ?thesis by simp
  qed
  have "\<forall>l\<in>set (split NL csvText). DQ \<notin> set l \<and> (\<forall>f\<in>set (split COMMA l). trim f = f) \<and>
          (\<exists>f\<in>set (split COMMA l). f \<noteq> [])"
    using line trimmed clean by blast
  then have p: "parseCSV csvText = map (split COMMA) (split NL csvText)"
    by (simp add: parseCSV_def parseLines_clean)
  have "join COMMA (map serializeField (split COMMA l)) = l"
    if "l \<in> set (split NL csvText)" for l
  proof -
    have "map serializeField (split COMMA l) = split COMMA l"
      using field [OF that] by (auto intro!: map_idI simp: serializeField_plain)
    then show ?thesis by (simp add: join_split)
  qed
  then have "map (\<lambda>row. join COMMA (map serializeField row)) (map (split COMMA) (split NL csvText)) =
             split NL csvText"
    by (auto intro!: map_idI simp: comp_def)
  then have "arrayToCSV (parseCSV csvText) = csvText"
    by (simp add: arrayToCSV_def p join_split)
  with p show ?thesis by simp
qed

text \<open>The theorem of C8 at a text of three rows, one of them with an empty last field.\<close>

theorem arrayToCSV_parseCSV_clean_witness:
  "DQ \<notin> set ''name,email\<newline>Ada L,ada@x.com\<newline>Bob,'' \<and>
   parseCSV ''name,email\<newline>Ada L,ada@x.com\<newline>Bob,'' =
     [[''name'', ''email''], [''Ada L'', ''ada@x.com''], [''Bob'', []]] \<and>
   arrayToCSV (parseCSV ''name,email\<newline>Ada L,ada@x.com\<newline>Bob,'') =
     ''name,email\<newline>Ada L,ada@x.com\<newline>Bob,''"
proof -
  have u: "DQ \<notin> set ''name,email\<newline>Ada L,ada@x.com\<newline>Bob,''"
    by simp
  have c: "\<forall>line\<in>set (split NL ''name,email\<newline>Ada L,ada@x.com\<newline>Bob,'').
             (\<forall>field\<in>set (split COMMA line). cleanField field = field) \<and>
             (\<exists>field\<in>set (split COMMA line). field \<noteq> [])"
    by code_simp
  have s: "map (split COMMA) (split NL ''name,email\<newline>Ada L,ada@x.com\<newline>Bob,'') =
           [[''name'', ''email''], [''Ada L'', ''ada@x.com''], [''Bob'', []]]"
    by code_simp
  from arrayToCSV_parseCSV_clean [OF u c]
  have p: "parseCSV ''name,email\<newline>Ada L,ada@x.com\<newline>Bob,'' =
           map (split COMMA) (split NL ''name,email\<newline>Ada L,ada@x.com\<newline>Bob,'')"
    and r: "arrayToCSV (parseCSV ''name,email\<newline>Ada L,ada@x.com\<newline>Bob,'') =
            ''name,email\<newline>Ada L,ada@x.com\<newline>Bob,''"
    by blast+
  from p s have "parseCSV ''name,email\<newline>Ada L,ada@x.com\<newline>Bob,'' =
      [[''name'', ''email''], [''Ada L'', ''ada@x.com''], [''Bob'', []]]"
    by (rule trans)
  with u r show ?thesis by blast
qed

end
